theory Spec2Isabelle
  imports Main "HOL-Library.Word" "HOL-Library.Sublist"
begin

section \<open>Strings of the program\<close>

text \<open>
  A JavaScript string is a sequence of 16-bit code units. The text extracted from
  a PDF is such a string, and so is every chapter.
\<close>

type_synonym code_unit = "16 word"
type_synonym jsstring = "code_unit list"

text \<open>An ASCII literal of the source, as code units.\<close>

definition js :: "string \<Rightarrow> jsstring" where
  "js s = map of_char s"

text \<open>
  \<^verbatim>\<open>String.prototype.trim\<close> removes WhiteSpace and LineTerminator code points
  from both ends: TAB, LF, VT, FF, CR, SPACE, NBSP, U+1680, U+2000 to U+200A,
  U+2028, U+2029, U+202F, U+205F, U+3000 and U+FEFF. All of them are single code
  units.
\<close>

definition is_ws :: "code_unit \<Rightarrow> bool" where
  "is_ws c \<longleftrightarrow>
     c \<in> {0x09, 0x0A, 0x0B, 0x0C, 0x0D, 0x20, 0xA0, 0x1680,
          0x2000, 0x2001, 0x2002, 0x2003, 0x2004, 0x2005, 0x2006, 0x2007,
          0x2008, 0x2009, 0x200A, 0x2028, 0x2029, 0x202F, 0x205F, 0x3000, 0xFEFF}"

definition trim :: "jsstring \<Rightarrow> jsstring" where
  "trim s = rev (dropWhile is_ws (rev (dropWhile is_ws s)))"

section \<open>The regular expression \<^verbatim>\<open>/Chapter \d+/i\<close>\<close>

text \<open>
  \<^verbatim>\<open>\d\<close> is an ASCII digit. Under the flag \<^verbatim>\<open>i\<close> (without \<^verbatim>\<open>u\<close>) two code units
  match when their canonical forms are equal; the canonical form is the upper-case
  mapping, except that a code unit of 128 or more is never mapped to one below 128.
  For the ASCII pattern characters this leaves the two cases of a letter, and the
  space itself.
\<close>

definition is_digit :: "code_unit \<Rightarrow> bool" where
  "is_digit c \<longleftrightarrow> 0x30 \<le> c \<and> c \<le> 0x39"

definition canonicalize :: "code_unit \<Rightarrow> code_unit" where
  "canonicalize c = (if 0x61 \<le> c \<and> c \<le> 0x7A then c - 0x20 else c)"

text \<open>
  \<open>match_literal p s\<close> matches the pattern characters \<open>p\<close> at the head of \<open>s\<close>,
  ignoring case, and returns what follows the match.
\<close>

fun match_literal :: "jsstring \<Rightarrow> jsstring \<Rightarrow> jsstring option" where
  "match_literal [] s = Some s"
| "match_literal (p # ps) [] = None"
| "match_literal (p # ps) (c # cs) =
     (if canonicalize c = canonicalize p then match_literal ps cs else None)"

text \<open>
  The match of the whole expression at the head of \<open>s\<close> (a sticky match at the
  current index): the literal, then as many digits as there are, at least one.
  The result is the length of the match.
\<close>

definition heading_match :: "jsstring \<Rightarrow> nat option" where
  "heading_match s =
     (case match_literal (js ''Chapter '') s of
        None \<Rightarrow> None
      | Some r \<Rightarrow>
          (case takeWhile is_digit r of
             [] \<Rightarrow> None
           | d # ds \<Rightarrow> Some (length (js ''Chapter '') + length (d # ds))))"

section \<open>\<^verbatim>\<open>String.prototype.split\<close> with a regular expression\<close>

text \<open>
  The loop of \<^verbatim>\<open>RegExp.prototype[Symbol.split]\<close>, for a matcher \<open>m\<close> that gives the
  length of the match at the head of its argument. With \<open>p\<close> the start of the
  current piece and \<open>q\<close> the index tried next, \<open>cur\<close> is the text from \<open>p\<close> to
  \<open>q\<close> and the last argument is the text from \<open>q\<close> on. No match at \<open>q\<close>, or an
  empty match at \<open>q = p\<close>, advances \<open>q\<close> by one; any other match closes the piece
  and continues after the match. At the end the rest is the last piece. The
  loop also stops at \<open>2^32 - 1\<close> pieces; a piece of this expression costs nine
  code units of text or more, which is beyond the strings of the engine, and the
  bound is left out.
\<close>

function split_loop :: "(jsstring \<Rightarrow> nat option) \<Rightarrow> jsstring \<Rightarrow> jsstring \<Rightarrow> jsstring list" where
  "split_loop m cur [] = [cur]"
| "split_loop m cur (c # cs) =
     (case m (c # cs) of
        None \<Rightarrow> split_loop m (cur @ [c]) cs
      | Some n \<Rightarrow>
          if n = 0 \<and> cur = [] then split_loop m (cur @ [c]) cs
          else cur # split_loop m [] (drop n (c # cs)))"
  by pat_completeness auto
termination
  by (relation "measures [\<lambda>(m, cur, rest). length rest, \<lambda>(m, cur, rest). length cur]") auto

text \<open>
  The empty string is split into no piece when the expression matches it, and
  into itself otherwise.
\<close>

definition split_regexp :: "(jsstring \<Rightarrow> nat option) \<Rightarrow> jsstring \<Rightarrow> jsstring list" where
  "split_regexp m s =
     (if s = [] then (case m [] of None \<Rightarrow> [[]] | Some n \<Rightarrow> [])
      else split_loop m [] s)"

section \<open>The chapter segmenter\<close>

definition segmentIntoChapters :: "jsstring \<Rightarrow> jsstring list" where
  "segmentIntoChapters text =
     (let chapters = split_regexp heading_match text
      in filter (\<lambda>chapter. trim chapter \<noteq> []) chapters)"

text \<open>
  The segmenter as the specification words it: split on the heading, trim every
  piece, drop the empty ones. The heading of the specification has any one
  white-space character between the word and the digits.
\<close>

definition spec_heading_match :: "jsstring \<Rightarrow> nat option" where
  "spec_heading_match s =
     (case match_literal (js ''Chapter'') s of
        None \<Rightarrow> None
      | Some [] \<Rightarrow> None
      | Some (w # r) \<Rightarrow>
          if is_ws w then
            (case takeWhile is_digit r of
               [] \<Rightarrow> None
             | d # ds \<Rightarrow> Some (length (js ''Chapter'') + 1 + length (d # ds)))
          else None)"

definition spec_segment :: "(jsstring \<Rightarrow> nat option) \<Rightarrow> jsstring \<Rightarrow> jsstring list" where
  "spec_segment m text = filter (\<lambda>s. s \<noteq> []) (map trim (split_regexp m text))"

text \<open>
  Occurrences of the heading, in the words of the specification and apart from
  the matcher above. \<open>is_heading h\<close>: the whole of \<open>h\<close> is the seven letters of
  the word, each in lower or upper case, one space, and one or more of the digits
  0 to 9. \<open>no_digit_start s\<close>: \<open>s\<close> does not begin with a digit. \<open>has_heading s\<close>:
  the expression matches at some index of \<open>s\<close>.
\<close>

definition is_heading :: "jsstring \<Rightarrow> bool" where
  "is_heading h \<longleftrightarrow>
     list_all2 (\<lambda>c (lower, upper). c = lower \<or> c = upper) (take 8 h)
       [(0x63, 0x43), (0x68, 0x48), (0x61, 0x41), (0x70, 0x50),
        (0x74, 0x54), (0x65, 0x45), (0x72, 0x52), (0x20, 0x20)] \<and>
     drop 8 h \<noteq> [] \<and> list_all (\<lambda>c. 0x30 \<le> c \<and> c \<le> 0x39) (drop 8 h)"

fun no_digit_start :: "jsstring \<Rightarrow> bool" where
  "no_digit_start [] = True"
| "no_digit_start (c # cs) = (\<not> (0x30 \<le> c \<and> c \<le> 0x39))"

fun has_heading :: "jsstring \<Rightarrow> bool" where
  "has_heading [] = False"
| "has_heading (c # cs) = (heading_match (c # cs) \<noteq> None \<or> has_heading cs)"

text \<open>
  \<open>in_order cs t\<close>: the strings \<open>cs\<close> lie in \<open>t\<close> one after the other, without
  overlap, with some text (a gap) before, between and after them.
\<close>

fun interleave :: "jsstring list \<Rightarrow> jsstring list \<Rightarrow> jsstring" where
  "interleave (g # gs) (c # cs) = g @ c @ interleave gs cs"
| "interleave gs [] = concat gs"
| "interleave [] cs = concat cs"

definition in_order :: "jsstring list \<Rightarrow> jsstring \<Rightarrow> bool" where
  "in_order cs t \<longleftrightarrow> (\<exists>gs. length gs = Suc (length cs) \<and> t = interleave gs cs)"

text \<open>
  In the loop of the split, the expression has matched at no index of the current
  piece.
\<close>

definition no_match_before :: "jsstring \<Rightarrow> jsstring \<Rightarrow> bool" where
  "no_match_before cur rest \<longleftrightarrow> (\<forall>i<length cur. heading_match (drop i (cur @ rest)) = None)"

section \<open>The summarization client\<close>

text \<open>
  The value \<^verbatim>\<open>JSON.parse\<close> returns. Numbers are kept abstract (\<open>'n\<close>): the program
  never computes with them. An object holds each of its keys once.
\<close>

datatype 'n json =
    JNull
  | JBool bool
  | JNum 'n
  | JStr jsstring
  | JArr "'n json list"
  | JObj "(jsstring \<times> 'n json) list"

text \<open>
  Reading a property by destructuring: \<open>None\<close> is \<^verbatim>\<open>undefined\<close>. Only an object
  has the properties the handler reads.
\<close>

fun get_prop :: "'n json \<Rightarrow> jsstring \<Rightarrow> 'n json option" where
  "get_prop (JObj kvs) k = map_of kvs k"
| "get_prop v k = None"

datatype exn =
    TypeError
  | ExtractionError
  | ApiError
  | ParseFailed
  | SupabaseError jsstring
  | UnlinkError

datatype log =
    Processing nat
  | Stored nat
  | ParseErrorLog
  | ResponseTextLog jsstring
  | SupabaseErrorLog jsstring
  | Caught exn

record 'n row =
  chapter_number :: nat
  summary :: "'n json option"
  clarity_score :: "'n json option"
  cohesion_score :: "'n json option"
  coverage_score :: "'n json option"
  granularity_score :: "'n json option"
  storytelling_score :: "'n json option"
  overall_score :: "'n json option"

text \<open>
  What the outside answers. \<open>req_file\<close> is the path of the uploaded file, if the
  request has one. \<open>pdf_text\<close> reads and parses the file (\<open>None\<close>: it throws).
  \<open>completion n text\<close> is the content of the model's answer to the \<open>n\<close>-th call of
  the process (\<open>None\<close>: the call, or reading its first choice, throws).
  \<open>json_parse\<close> is \<^verbatim>\<open>JSON.parse\<close> (\<open>None\<close>: a syntax error). \<open>insert_error n r\<close> is the
  error message of the store for the insertion of \<open>r\<close> into a table of \<open>n\<close> rows,
  if it refuses (the client of the store reports a failure in the \<^verbatim>\<open>error\<close> of
  its result). \<open>unlink_ok\<close> tells whether the file can be deleted.
\<close>

record 'n env =
  req_file :: "jsstring option"
  pdf_text :: "jsstring \<Rightarrow> jsstring option"
  completion :: "nat \<Rightarrow> jsstring \<Rightarrow> jsstring option"
  json_parse :: "jsstring \<Rightarrow> 'n json option"
  insert_error :: "nat \<Rightarrow> 'n row \<Rightarrow> jsstring option"
  unlink_ok :: "jsstring \<Rightarrow> bool"

text \<open>
  What the handler changes: the rows of the table \<^verbatim>\<open>summaries\<close>, the chapter texts
  sent to the model, the files on disk, the calls of \<^verbatim>\<open>fs.unlink\<close>, the console.
\<close>

record 'n world =
  table :: "'n row list"
  sent :: "jsstring list"
  files :: "jsstring set"
  unlink_calls :: "jsstring list"
  console :: "log list"

text \<open>
  \<^verbatim>\<open>responseText.replace(/```json|```/g, "")\<close>: every fence is removed, the longer
  alternative first; the scan goes on after the match.
\<close>

fun strip_fences :: "jsstring \<Rightarrow> jsstring" where
  "strip_fences [] = []"
| "strip_fences (c # cs) =
     (if prefix (js ''```json'') (c # cs) then strip_fences (drop 6 cs)
      else if prefix (js ''```'') (c # cs) then strip_fences (drop 2 cs)
      else c # strip_fences cs)"

definition getSummaryFromDeepSeek ::
  "'n env \<Rightarrow> jsstring \<Rightarrow> 'n world \<Rightarrow> (exn + 'n json) \<times> 'n world" where
  "getSummaryFromDeepSeek env text w =
     (let w1 = w\<lparr>sent := sent w @ [text]\<rparr> in
      case completion env (length (sent w)) text of
        None \<Rightarrow> (Inl ApiError, w1)
      | Some responseText \<Rightarrow>
          (let cleanedResponse = trim (strip_fences responseText) in
           case json_parse env cleanedResponse of
             Some result \<Rightarrow> (Inr result, w1)
           | None \<Rightarrow>
               (Inl ParseFailed,
                w1\<lparr>console := console w1 @ [ParseErrorLog, ResponseTextLog cleanedResponse]\<rparr>)))"

section \<open>The persistence writer\<close>

definition storeSummaryInSupabase ::
  "'n env \<Rightarrow> nat \<Rightarrow> 'n json option \<Rightarrow> 'n json option \<Rightarrow> 'n json option \<Rightarrow> 'n json option \<Rightarrow>
   'n json option \<Rightarrow> 'n json option \<Rightarrow> 'n json option \<Rightarrow> 'n world \<Rightarrow> exn option \<times> 'n world" where
  "storeSummaryInSupabase env chapterNumber summary' clarityScore cohesionScore coverageScore
     granularityScore storytellingScore overallScore w =
     (let r = \<lparr>chapter_number = chapterNumber, summary = summary',
                clarity_score = clarityScore, cohesion_score = cohesionScore,
                coverage_score = coverageScore, granularity_score = granularityScore,
                storytelling_score = storytellingScore, overall_score = overallScore\<rparr> in
      case insert_error env (length (table w)) r of
        Some message \<Rightarrow>
          (Some (SupabaseError message), w\<lparr>console := console w @ [SupabaseErrorLog message]\<rparr>)
      | None \<Rightarrow> (None, w\<lparr>table := table w @ [r]\<rparr>))"

section \<open>The upload handler\<close>

text \<open>The body of the loop, for the chapter at index \<open>i\<close>.\<close>

definition process_chapter ::
  "'n env \<Rightarrow> jsstring list \<Rightarrow> nat \<Rightarrow> 'n world \<Rightarrow> exn option \<times> 'n world" where
  "process_chapter env chapters i w =
     (let w0 = w\<lparr>console := console w @ [Processing (i + 1)]\<rparr> in
      case getSummaryFromDeepSeek env (chapters ! i) w0 of
        (Inl e, w1) \<Rightarrow> (Some e, w1)
      | (Inr result, w1) \<Rightarrow>
          if result = JNull then (Some TypeError, w1)
          else
            (case storeSummaryInSupabase env (i + 1)
                    (get_prop result (js ''summary''))
                    (get_prop result (js ''clarity_score''))
                    (get_prop result (js ''cohesion_score''))
                    (get_prop result (js ''coverage_score''))
                    (get_prop result (js ''granularity_score''))
                    (get_prop result (js ''storytelling_score''))
                    (get_prop result (js ''overall_score'')) w1 of
               (Some e, w2) \<Rightarrow> (Some e, w2)
             | (None, w2) \<Rightarrow> (None, w2\<lparr>console := console w2 @ [Stored (i + 1)]\<rparr>)))"

text \<open>
  \<^verbatim>\<open>for (let i = 0; i < chapters.length; i++)\<close>, from index \<open>i\<close> on. An exception
  leaves the loop.
\<close>

function chapter_loop ::
  "'n env \<Rightarrow> jsstring list \<Rightarrow> nat \<Rightarrow> 'n world \<Rightarrow> exn option \<times> 'n world" where
  "chapter_loop env chapters i w =
     (if i < length chapters then
        (case process_chapter env chapters i w of
           (Some e, w1) \<Rightarrow> (Some e, w1)
         | (None, w1) \<Rightarrow> chapter_loop env chapters (i + 1) w1)
      else (None, w))"
  by pat_completeness auto
termination
  by (relation "measure (\<lambda>(env, chapters, i, w). length chapters - i)") auto

definition extractTextFromPDF :: "'n env \<Rightarrow> jsstring \<Rightarrow> exn + jsstring" where
  "extractTextFromPDF env filePath =
     (case pdf_text env filePath of None \<Rightarrow> Inl ExtractionError | Some text \<Rightarrow> Inr text)"

definition unlink :: "'n env \<Rightarrow> jsstring \<Rightarrow> 'n world \<Rightarrow> exn option \<times> 'n world" where
  "unlink env filePath w =
     (let w1 = w\<lparr>unlink_calls := unlink_calls w @ [filePath]\<rparr> in
      if unlink_ok env filePath then (None, w1\<lparr>files := files w1 - {filePath}\<rparr>)
      else (Some UnlinkError, w1))"

datatype response = Response nat string

text \<open>The \<^verbatim>\<open>catch\<close> block of the handler.\<close>

definition catch_block :: "exn \<Rightarrow> 'n world \<Rightarrow> response \<times> 'n world" where
  "catch_block error w =
     (Response 500 ''An error occurred while processing the book.'',
      w\<lparr>console := console w @ [Caught error]\<rparr>)"

definition upload_handler :: "'n env \<Rightarrow> 'n world \<Rightarrow> response \<times> 'n world" where
  "upload_handler env w =
     (case req_file env of
        None \<Rightarrow> catch_block TypeError w
      | Some filePath \<Rightarrow>
          (case extractTextFromPDF env filePath of
             Inl e \<Rightarrow> catch_block e w
           | Inr text \<Rightarrow>
               (let chapters = segmentIntoChapters text in
                case chapter_loop env chapters 0 w of
                  (Some e, w1) \<Rightarrow> catch_block e w1
                | (None, w1) \<Rightarrow>
                    (case unlink env filePath w1 of
                       (Some e, w2) \<Rightarrow> catch_block e w2
                     | (None, w2) \<Rightarrow> (Response 200 ''Book processed successfully!'', w2)))))"

text \<open>
  What a chapter comes to, read off the outside alone. \<open>answer env n text\<close> is the
  parsed answer to the \<open>n\<close>-th call of the model, or the exception of the client.
  \<open>row_of i result\<close> is the row for the chapter at index \<open>i\<close> with the fields of
  \<open>result\<close> as they are. \<open>chapter_outcome env b tb chapters m\<close> is the row stored
  for the chapter at index \<open>m\<close>, or the exception that ends the loop there, when
  the loop starts after \<open>b\<close> calls of the model on a table of \<open>tb\<close> rows.
\<close>

definition answer :: "'n env \<Rightarrow> nat \<Rightarrow> jsstring \<Rightarrow> exn + 'n json" where
  "answer env n text =
     (case completion env n text of
        None \<Rightarrow> Inl ApiError
      | Some responseText \<Rightarrow>
          (case json_parse env (trim (strip_fences responseText)) of
             None \<Rightarrow> Inl ParseFailed
           | Some result \<Rightarrow> Inr result))"

definition row_of :: "nat \<Rightarrow> 'n json \<Rightarrow> 'n row" where
  "row_of i result =
     \<lparr>chapter_number = i + 1,
      summary = get_prop result (js ''summary''),
      clarity_score = get_prop result (js ''clarity_score''),
      cohesion_score = get_prop result (js ''cohesion_score''),
      coverage_score = get_prop result (js ''coverage_score''),
      granularity_score = get_prop result (js ''granularity_score''),
      storytelling_score = get_prop result (js ''storytelling_score''),
      overall_score = get_prop result (js ''overall_score'')\<rparr>"

definition chapter_outcome ::
  "'n env \<Rightarrow> nat \<Rightarrow> nat \<Rightarrow> jsstring list \<Rightarrow> nat \<Rightarrow> exn + 'n row" where
  "chapter_outcome env b tb chapters m =
     (case answer env (b + m) (chapters ! m) of
        Inl e \<Rightarrow> Inl e
      | Inr result \<Rightarrow>
          if result = JNull then Inl TypeError
          else
            (case insert_error env (tb + m) (row_of m result) of
               Some message \<Rightarrow> Inl (SupabaseError message)
             | None \<Rightarrow> Inr (row_of m result)))"

section \<open>The start of the server\<close>

text \<open>
  The read of \<^verbatim>\<open>checkSupabaseConnection\<close> answers without an error, answers with
  an error, or throws.
\<close>

datatype select_outcome = SelectOk | SelectError | SelectThrows

datatype startup_log =
    ServerRunning
  | ConnectionError
  | ErrorChecking
  | Connected
  | FailedExiting

record proc =
  listening :: bool
  exit_code :: "nat option"
  printed :: "startup_log list"

definition checkSupabaseConnection :: "select_outcome \<Rightarrow> proc \<Rightarrow> bool \<times> proc" where
  "checkSupabaseConnection sel p =
     (case sel of
        SelectError \<Rightarrow> (False, p\<lparr>printed := printed p @ [ConnectionError]\<rparr>)
      | SelectOk \<Rightarrow> (True, p\<lparr>printed := printed p @ [Connected]\<rparr>)
      | SelectThrows \<Rightarrow> (False, p\<lparr>printed := printed p @ [ErrorChecking]\<rparr>))"

text \<open>
  \<^verbatim>\<open>app.listen(port, callback)\<close> binds the port, and calls the callback once the
  server listens. \<^verbatim>\<open>process.exit(1)\<close> ends the process, and its listener with it.
\<close>

definition app_listen :: "proc \<Rightarrow> proc" where
  "app_listen p = p\<lparr>listening := True\<rparr>"

definition listen_callback :: "select_outcome \<Rightarrow> proc \<Rightarrow> proc" where
  "listen_callback sel p =
     (let p1 = p\<lparr>printed := printed p @ [ServerRunning]\<rparr> in
      case checkSupabaseConnection sel p1 of
        (isSupabaseConnected, p2) \<Rightarrow>
          if \<not> isSupabaseConnected then
            p2\<lparr>printed := printed p2 @ [FailedExiting], exit_code := Some 1, listening := False\<rparr>
          else p2)"

definition initial :: proc where
  "initial = \<lparr>listening = False, exit_code = None, printed = []\<rparr>"

text \<open>The states the process goes through when it starts.\<close>

definition startup :: "select_outcome \<Rightarrow> proc list" where
  "startup sel = [initial, app_listen initial, listen_callback sel (app_listen initial)]"

text \<open>A process serves when its listener is bound and it has not exited.\<close>

definition serving :: "proc \<Rightarrow> bool" where
  "serving p \<longleftrightarrow> listening p \<and> exit_code p = None"

section \<open>Example requests\<close>

text \<open>
  A book of two chapters, an answer of the model in a code fence with seven
  different fields, two of the scores out of range, and a parser that knows this
  answer.
\<close>

definition book :: jsstring where
  "book = js ''uploads/book''"

definition two_chapters :: jsstring where
  "two_chapters = js ''Chapter 1 a Chapter 2 b''"

definition example_json :: jsstring where
  \<open>example_json =
     js ''{"summary": "s", "clarity_score": 9, "cohesion_score": 8, "coverage_score": 7, '' @
     js ''"granularity_score": -1, "storytelling_score": 10, "overall_score": 99}''\<close>

definition example_answer :: jsstring where
  "example_answer = js ''```json'' @ [0x0A] @ example_json @ [0x0A] @ js ''```''"

definition example_result :: "int json" where
  "example_result =
     JObj [(js ''summary'', JStr (js ''s'')),
           (js ''clarity_score'', JNum 9),
           (js ''cohesion_score'', JNum 8),
           (js ''coverage_score'', JNum 7),
           (js ''granularity_score'', JNum (- 1)),
           (js ''storytelling_score'', JNum 10),
           (js ''overall_score'', JNum 99)]"

definition example_parse :: "jsstring \<Rightarrow> int json option" where
  "example_parse s = (if s = example_json then Some example_result else None)"

definition example_row :: "nat \<Rightarrow> int row" where
  "example_row n =
     \<lparr>chapter_number = n, summary = Some (JStr (js ''s'')),
      clarity_score = Some (JNum 9), cohesion_score = Some (JNum 8),
      coverage_score = Some (JNum 7), granularity_score = Some (JNum (- 1)),
      storytelling_score = Some (JNum 10), overall_score = Some (JNum 99)\<rparr>"

text \<open>Every call succeeds.\<close>

definition env_ok :: "int env" where
  "env_ok =
     \<lparr>req_file = Some book,
      pdf_text = (\<lambda>p. if p = book then Some two_chapters else None),
      completion = (\<lambda>n text. Some example_answer),
      json_parse = example_parse,
      insert_error = (\<lambda>n r. None),
      unlink_ok = (\<lambda>p. True)\<rparr>"

text \<open>The call of the model for the second chapter throws.\<close>

definition env_network :: "int env" where
  "env_network = env_ok\<lparr>completion := (\<lambda>n text. if n = 0 then Some example_answer else None)\<rparr>"

text \<open>The answer for the second chapter is not JSON.\<close>

definition env_prose :: "int env" where
  "env_prose =
     env_ok\<lparr>completion := (\<lambda>n text. if n = 0 then Some example_answer else Some (js ''Sorry''))\<rparr>"

text \<open>The file cannot be deleted.\<close>

definition env_locked :: "int env" where
  "env_locked = env_ok\<lparr>unlink_ok := (\<lambda>p. False)\<rparr>"

definition world0 :: "int world" where
  "world0 = \<lparr>table = [], sent = [], files = {book}, unlink_calls = [], console = []\<rparr>"

section \<open>Properties of the expression and of the split\<close>


lemma match_literal_append:
  "match_literal p s = Some r \<Longrightarrow> match_literal p (s @ x) = Some (r @ x)"
  by (induction p s rule: match_literal.induct) (auto split: if_splits)

lemma match_literal_length:
  "match_literal p s = Some r \<Longrightarrow> length s = length p + length r"
  by (induction p s rule: match_literal.induct) (auto split: if_splits)

lemma match_literal_iff:
  "match_literal p s = Some r \<longleftrightarrow>
     (\<exists>l. s = l @ r \<and> length l = length p \<and> map canonicalize l = map canonicalize p)"
proof (induction p s rule: match_literal.induct)
  case (1 s) then show ?case by simp
next
  case (2 p ps) then show ?case by simp
next
  case (3 p ps c cs)
  show ?case
  proof (cases "canonicalize c = canonicalize p")
    case True
    with 3 show ?thesis
      apply simp
      apply (rule iffI)
       apply (erule exE)
      subgoal for l by (rule exI[of _ "c # l"]) simp
      apply (erule exE)
      subgoal for l by (cases l) auto
      done
  next
    case False
    then show ?thesis 
      apply simp
      apply (rule allI)
      subgoal for l by (cases l) auto
      done
  qed
qed

lemma heading_match_bounds:
  "heading_match s = Some n \<Longrightarrow> 9 \<le> n \<and> n \<le> length s"
proof -
  assume a: "heading_match s = Some n"
  then obtain r d ds where r: "match_literal (js ''Chapter '') s = Some r"
    and t: "takeWhile is_digit r = d # ds" and n: "n = length (js ''Chapter '') + length (d # ds)"
    by (auto simp: heading_match_def split: option.splits list.splits)
  have "length (takeWhile is_digit r) \<le> length r" by (rule length_takeWhile_le)
  with t have "length (d # ds) \<le> length r" by simp
  moreover have "length s = length (js ''Chapter '') + length r"
    using r by (rule match_literal_length)
  moreover have "length (js ''Chapter '') = 8" by (simp add: js_def)
  ultimately show ?thesis using n by simp
qed

lemma heading_match_append:
  "heading_match s = Some n \<Longrightarrow> heading_match (s @ x) \<noteq> None"
proof -
  assume a: "heading_match s = Some n"
  then obtain r d ds where r: "match_literal (js ''Chapter '') s = Some r"
    and t: "takeWhile is_digit r = d # ds" 
    by (auto simp: heading_match_def split: option.splits list.splits)
  from t obtain r' where "r = d # r'" "is_digit d"
    by (cases r) (auto split: if_splits)
  then have "takeWhile is_digit (r @ x) \<noteq> []" by simp
  moreover have "match_literal (js ''Chapter '') (s @ x) = Some (r @ x)"
    using r by (rule match_literal_append)
  ultimately show ?thesis
    by (auto simp: heading_match_def split: list.splits)
qed

lemma split_loop_heading:
  "split_loop heading_match cur (c # cs) =
     (case heading_match (c # cs) of
        None \<Rightarrow> split_loop heading_match (cur @ [c]) cs
      | Some n \<Rightarrow> cur # split_loop heading_match [] (drop n (c # cs)))"
  by (auto split: option.splits dest: heading_match_bounds)

lemma dropWhile_all_iff: "(\<forall>x\<in>set (dropWhile P s). P x) \<longleftrightarrow> (\<forall>x\<in>set s. P x)"
proof
  assume a: "\<forall>x\<in>set (dropWhile P s). P x"
  have "dropWhile P s = []"
  proof (rule ccontr)
    assume n: "dropWhile P s \<noteq> []"
    then have "\<not> P (hd (dropWhile P s))" by (rule hd_dropWhile)
    moreover have "hd (dropWhile P s) \<in> set (dropWhile P s)" using n by (rule hd_in_set)
    ultimately show False using a by blast
  qed
  then show "\<forall>x\<in>set s. P x" by simp
next
  assume "\<forall>x\<in>set s. P x"
  then show "\<forall>x\<in>set (dropWhile P s). P x" by (blast dest: set_dropWhileD)
qed

lemma trim_empty_iff: "trim s = [] \<longleftrightarrow> (\<forall>c\<in>set s. is_ws c)"
  by (simp add: trim_def dropWhile_all_iff)

lemma has_heading_drop: "has_heading s \<longleftrightarrow> (\<exists>i<length s. heading_match (drop i s) \<noteq> None)"
proof (induction s)
  case Nil then show ?case by simp
next
  case (Cons c cs)
  show ?case
  proof
    assume "has_heading (c # cs)"
    then consider "heading_match (c # cs) \<noteq> None" | "has_heading cs" by auto
    then show "\<exists>i<length (c # cs). heading_match (drop i (c # cs)) \<noteq> None"
    proof cases
      case 1 then show ?thesis by (intro exI[of _ 0]) simp
    next
      case 2
      with Cons obtain i where "i < length cs" "heading_match (drop i cs) \<noteq> None" by auto
      then show ?thesis by (intro exI[of _ "Suc i"]) simp
    qed
  next
    assume "\<exists>i<length (c # cs). heading_match (drop i (c # cs)) \<noteq> None"
    then obtain i where i: "i < length (c # cs)" "heading_match (drop i (c # cs)) \<noteq> None" by auto
    show "has_heading (c # cs)"
    proof (cases i)
      case 0 with i show ?thesis by simp
    next
      case (Suc j)
      with i have "j < length cs" "heading_match (drop j cs) \<noteq> None" by auto
      with Cons show ?thesis by auto
    qed
  qed
qed

lemma length_lit: "length (js ''Chapter '') = 8"
  by (simp add: js_def)

lemma canonicalize_letter:
  "canonicalize c = 0x43 \<longleftrightarrow> c = 0x63 \<or> c = 0x43"
  "canonicalize c = 0x48 \<longleftrightarrow> c = 0x68 \<or> c = 0x48"
  "canonicalize c = 0x41 \<longleftrightarrow> c = 0x61 \<or> c = 0x41"
  "canonicalize c = 0x50 \<longleftrightarrow> c = 0x70 \<or> c = 0x50"
  "canonicalize c = 0x54 \<longleftrightarrow> c = 0x74 \<or> c = 0x54"
  "canonicalize c = 0x45 \<longleftrightarrow> c = 0x65 \<or> c = 0x45"
  "canonicalize c = 0x52 \<longleftrightarrow> c = 0x72 \<or> c = 0x52"
  "canonicalize c = 0x20 \<longleftrightarrow> c = 0x20"
  by (auto simp: canonicalize_def diff_eq_eq)

lemma canonicalize_lit:
  "map canonicalize (js ''Chapter '') = [0x43, 0x48, 0x41, 0x50, 0x54, 0x45, 0x52, 0x20]"
  by (simp add: js_def canonicalize_def)

lemma literal_match_iff:
  "map canonicalize xs = map canonicalize (js ''Chapter '') \<longleftrightarrow>
   list_all2 (\<lambda>c (lower, upper). c = lower \<or> c = upper) xs
       [(0x63, 0x43), (0x68, 0x48), (0x61, 0x41), (0x70, 0x50),
        (0x74, 0x54), (0x65, 0x45), (0x72, 0x52), (0x20, 0x20)]"
  unfolding canonicalize_lit
  by (auto simp: list_all2_Cons2 map_eq_Cons_conv canonicalize_letter)

lemma is_heading_canon:
  "is_heading h \<longleftrightarrow>
     map canonicalize (take 8 h) = map canonicalize (js ''Chapter '') \<and>
     drop 8 h \<noteq> [] \<and> list_all is_digit (drop 8 h)"
proof -
  have "is_digit = (\<lambda>c. 0x30 \<le> c \<and> c \<le> 0x39)" by (simp add: is_digit_def fun_eq_iff)
  then show ?thesis by (simp add: is_heading_def literal_match_iff)
qed

lemma heading_match_is_heading:
  assumes "heading_match s = Some n"
  shows "is_heading (take n s)"
proof -
  from assms obtain r d ds where r: "match_literal (js ''Chapter '') s = Some r"
    and t: "takeWhile is_digit r = d # ds" and n: "n = length (js ''Chapter '') + length (d # ds)"
    by (auto simp: heading_match_def split: option.splits list.splits)
  from r obtain l where l: "s = l @ r" "length l = 8"
      "map canonicalize l = map canonicalize (js ''Chapter '')"
    by (auto simp: match_literal_iff length_lit)
  have "r = takeWhile is_digit r @ dropWhile is_digit r" by simp
  then have "take (length (d # ds)) r = d # ds"
    using t by (metis append_eq_conv_conj)
  with l n have tk: "take n s = l @ d # ds" by (simp add: length_lit)
  have "list_all is_digit (takeWhile is_digit r)"
    by (simp add: list_all_iff) (blast dest: set_takeWhileD)
  with t have "list_all is_digit (d # ds)" by simp
  with tk l show ?thesis by (simp add: is_heading_canon)
qed

lemma is_heading_match:
  assumes "is_heading h"
  shows "heading_match (h @ x) \<noteq> None"
proof -
  from assms have c: "map canonicalize (take 8 h) = map canonicalize (js ''Chapter '')"
    and d: "drop 8 h \<noteq> []" and e: "list_all is_digit (drop 8 h)"
    by (simp_all add: is_heading_canon)
  from d have len: "length (take 8 h) = 8" by simp
  have "h @ x = take 8 h @ (drop 8 h @ x)" by simp
  with c len have m: "match_literal (js ''Chapter '') (h @ x) = Some (drop 8 h @ x)"
    unfolding match_literal_iff length_lit by blast
  from d e obtain y ys where "drop 8 h = y # ys" "is_digit y"
    by (cases "drop 8 h") auto
  then have "takeWhile is_digit (drop 8 h @ x) \<noteq> []" by simp
  with m show ?thesis by (auto simp: heading_match_def split: list.splits)
qed

lemma is_heading_nonempty: "is_heading h \<Longrightarrow> h \<noteq> []"
  by (auto simp: is_heading_canon)

lemma has_heading_iff:
  "has_heading s \<longleftrightarrow> (\<exists>pre h post. s = pre @ h @ post \<and> is_heading h)"
proof
  assume "has_heading s"
  then obtain i n where i: "i < length s" "heading_match (drop i s) = Some n"
    by (auto simp: has_heading_drop)
  then have "is_heading (take n (drop i s))" by (simp add: heading_match_is_heading)
  moreover have "s = take i s @ take n (drop i s) @ drop n (drop i s)"
    by (simp only: append_take_drop_id)
  ultimately show "\<exists>pre h post. s = pre @ h @ post \<and> is_heading h" by blast
next
  assume "\<exists>pre h post. s = pre @ h @ post \<and> is_heading h"
  then obtain pre h post where s: "s = pre @ h @ post" and h: "is_heading h" by blast
  from h have "heading_match (h @ post) \<noteq> None" by (rule is_heading_match)
  with s have "heading_match (drop (length pre) s) \<noteq> None" by simp
  moreover from h s have "length pre < length s" by (auto dest: is_heading_nonempty)
  ultimately show "has_heading s" unfolding has_heading_drop by blast
qed


lemma in_order_Nil: "in_order [] t"
  unfolding in_order_def by (rule exI[of _ "[t]"]) simp

lemma in_order_prepend: "in_order cs t \<Longrightarrow> in_order cs (pre @ t)"
proof -
  assume "in_order cs t"
  then obtain gs where gs: "length gs = Suc (length cs)" "t = interleave gs cs"
    unfolding in_order_def by blast
  then obtain g gs' where g: "gs = g # gs'" by (cases gs) auto
  have "pre @ t = interleave ((pre @ g) # gs') cs"
    using gs g by (cases cs) auto
  then show ?thesis unfolding in_order_def using gs g
    by (intro exI[of _ "(pre @ g) # gs'"]) simp
qed

lemma in_order_Cons: "in_order cs t \<Longrightarrow> in_order (c # cs) (c @ t)"
proof -
  assume "in_order cs t"
  then obtain gs where gs: "length gs = Suc (length cs)" "t = interleave gs cs"
    unfolding in_order_def by blast
  then show ?thesis unfolding in_order_def
    by (intro exI[of _ "[] # gs"]) simp
qed

lemma in_order_sublist: "in_order cs t \<Longrightarrow> c \<in> set cs \<Longrightarrow> sublist c t"
proof (induction cs arbitrary: t)
  case Nil then show ?case by simp
next
  case (Cons a cs)
  from Cons.prems(1) obtain gs where gs: "length gs = Suc (length (a # cs))" "t = interleave gs (a # cs)"
    unfolding in_order_def by blast
  then obtain g gs' where g: "gs = g # gs'" by (cases gs) auto
  with gs have t: "t = g @ a @ interleave gs' cs" and l: "length gs' = Suc (length cs)" by auto
  show ?case
  proof (cases "c = a")
    case True
    with t show ?thesis unfolding sublist_def by blast
  next
    case False
    with Cons.prems have "c \<in> set cs" by simp
    moreover have "in_order cs (interleave gs' cs)" unfolding in_order_def using l by blast
    ultimately have "sublist c (interleave gs' cs)" by (rule Cons.IH[rotated])
    then obtain ps ss where "interleave gs' cs = ps @ c @ ss" unfolding sublist_def by blast
    with t have "t = (g @ a @ ps) @ c @ ss" by simp
    then show ?thesis unfolding sublist_def by blast
  qed
qed

lemma split_loop_in_order:
  "in_order (filter P (split_loop m cur rest)) (cur @ rest)"
proof (induction m cur rest rule: split_loop.induct)
  case (1 m cur)
  show ?case using in_order_Cons[OF in_order_Nil, of cur "[]"] in_order_Nil by simp
next
  case (2 m cur c cs)
  show ?case
  proof (cases "m (c # cs)")
    case None
    with 2(1) show ?thesis by simp
  next
    case (Some n)
    show ?thesis
    proof (cases "n = 0 \<and> cur = []")
      case True
      with Some 2(2) show ?thesis by simp
    next
      case False
      let ?fs = "filter P (split_loop m [] (drop n (c # cs)))"
      from False Some 2(3) have "in_order ?fs (drop n (c # cs))" by simp
      then have "in_order ?fs (take n (c # cs) @ drop n (c # cs))" by (rule in_order_prepend)
      then have a: "in_order ?fs (c # cs)" by (simp only: append_take_drop_id)
      show ?thesis
      proof (cases "P cur")
        case True
        with a have "in_order (cur # ?fs) (cur @ c # cs)" by (simp add: in_order_Cons)
        with True False Some show ?thesis by auto
      next
        case f: False
        from a have "in_order ?fs (cur @ c # cs)" by (rule in_order_prepend)
        with f False Some show ?thesis by auto
      qed
    qed
  qed
qed

lemma split_regexp_in_order: "in_order (filter P (split_regexp m t)) t"
  using split_loop_in_order[of P m "[]" t]
  by (auto simp: split_regexp_def in_order_Nil split: option.splits)

lemma no_match_before_has_heading:
  "no_match_before cur rest \<Longrightarrow> \<not> has_heading cur"
proof
  assume a: "no_match_before cur rest" and "has_heading cur"
  then obtain i n where i: "i < length cur" "heading_match (drop i cur) = Some n"
    by (auto simp: has_heading_drop)
  then have "heading_match (drop i cur @ rest) \<noteq> None" by (simp add: heading_match_append)
  with i a show False by (simp add: no_match_before_def)
qed

lemma heading_match_Nil: "heading_match [] = None"
  by (simp add: heading_match_def js_def)

lemma split_loop_no_heading_aux:
  "m = heading_match \<Longrightarrow> no_match_before cur rest \<Longrightarrow> p \<in> set (split_loop m cur rest)
     \<Longrightarrow> \<not> has_heading p"
proof (induction m cur rest rule: split_loop.induct)
  case (1 m cur)
  then show ?case by (auto dest: no_match_before_has_heading)
next
  case (2 m cur c cs)
  note m = \<open>m = heading_match\<close>
  note inv = \<open>no_match_before cur (c # cs)\<close>
  note mem = \<open>p \<in> set (split_loop m cur (c # cs))\<close>
  show ?case
  proof (cases "m (c # cs)")
    case None
    have "no_match_before (cur @ [c]) cs"
      unfolding no_match_before_def
    proof (intro allI impI)
      fix i assume "i < length (cur @ [c])"
      then consider "i < length cur" | "i = length cur" by fastforce
      then show "heading_match (drop i ((cur @ [c]) @ cs)) = None"
      proof cases
        case 1 with inv show ?thesis by (simp add: no_match_before_def)
      next
        case 2 with None m show ?thesis by simp
      qed
    qed
    moreover from mem None have "p \<in> set (split_loop m (cur @ [c]) cs)" by simp
    ultimately show ?thesis using "2.IH"(1)[OF None m] by blast
  next
    case (Some n)
    with m have n: "\<not> (n = 0 \<and> cur = [])" by (auto dest: heading_match_bounds)
    have e: "no_match_before [] (drop n (c # cs))" by (simp add: no_match_before_def)
    from Some n mem consider "p = cur" | "p \<in> set (split_loop m [] (drop n (c # cs)))"
      by auto
    then show ?thesis
    proof cases
      case 1 with inv show ?thesis by (auto dest: no_match_before_has_heading)
    next
      case 2 then show ?thesis using "2.IH"(3)[OF Some n m e] by blast
    qed
  qed
qed

lemma split_loop_no_heading:
  "no_match_before cur rest \<Longrightarrow> p \<in> set (split_loop heading_match cur rest) \<Longrightarrow> \<not> has_heading p"
  by (rule split_loop_no_heading_aux[OF refl])

lemma split_regexp_no_heading: "p \<in> set (split_regexp heading_match t) \<Longrightarrow> \<not> has_heading p"
  using split_loop_no_heading[of "[]" t p]
  by (auto simp: split_regexp_def no_match_before_def heading_match_Nil split: if_splits)

lemma split_loop_no_match:
  "\<not> has_heading rest \<Longrightarrow> split_loop heading_match cur rest = [cur @ rest]"
  by (induction rest arbitrary: cur) auto

lemma split_regexp_no_match: "\<not> has_heading t \<Longrightarrow> split_regexp heading_match t = [t]"
  by (simp add: split_regexp_def split_loop_no_match heading_match_Nil)

lemma heading_match_greedy:
  assumes "heading_match s = Some n"
  shows "no_digit_start (drop n s)"
proof -
  from assms obtain r d ds where r: "match_literal (js ''Chapter '') s = Some r"
    and t: "takeWhile is_digit r = d # ds" and n: "n = length (js ''Chapter '') + length (d # ds)"
    by (auto simp: heading_match_def split: option.splits list.splits)
  from r have "length s = length (js ''Chapter '') + length r" by (rule match_literal_length)
  from r obtain l where l: "s = l @ r" "length l = 8"
    by (auto simp: match_literal_iff length_lit)
  with n t have "drop n s = drop (length (takeWhile is_digit r)) r" by (simp add: length_lit)
  also have "\<dots> = dropWhile is_digit r" by (rule dropWhile_eq_drop[symmetric])
  finally have d: "drop n s = dropWhile is_digit r" .
  show ?thesis
  proof (cases "dropWhile is_digit r")
    case Nil with d show ?thesis by simp
  next
    case (Cons x xs)
    then have "dropWhile is_digit r \<noteq> []" by simp
    then have "\<not> is_digit (hd (dropWhile is_digit r))" by (rule hd_dropWhile)
    with Cons d show ?thesis by (simp add: is_digit_def)
  qed
qed

lemma split_loop_first:
  "\<exists>p ps. split_loop m cur rest = p # ps \<and> prefix cur p \<and> prefix p (cur @ rest)"
proof (induction m cur rest rule: split_loop.induct)
  case (1 m cur)
  then show ?case by simp
next
  case (2 m cur c cs)
  show ?case
  proof (cases "m (c # cs)")
    case None
    with 2(1) obtain p ps where "split_loop m (cur @ [c]) cs = p # ps" "prefix (cur @ [c]) p"
      "prefix p ((cur @ [c]) @ cs)" by blast
    with None show ?thesis by (auto dest: append_prefixD)
  next
    case (Some n)
    show ?thesis
    proof (cases "n = 0 \<and> cur = []")
      case True
      with Some 2(2) obtain p ps where "split_loop m (cur @ [c]) cs = p # ps" "prefix (cur @ [c]) p"
        "prefix p ((cur @ [c]) @ cs)" by blast
      with Some True show ?thesis by (auto dest: append_prefixD)
    next
      case False
      with Some show ?thesis by auto
    qed
  qed
qed

lemma split_loop_cut:
  "m = heading_match \<Longrightarrow>
   \<exists>ds. length (split_loop m cur rest) = Suc (length ds) \<and>
        cur @ rest = interleave (split_loop m cur rest) ds \<and>
        (\<forall>d\<in>set ds. is_heading d) \<and>
        list_all no_digit_start (tl (split_loop m cur rest))"
proof (induction m cur rest rule: split_loop.induct)
  case (1 m cur)
  show ?case by (rule exI[of _ "[]"]) simp
next
  case (2 m cur c cs)
  note m = \<open>m = heading_match\<close>
  show ?case
  proof (cases "m (c # cs)")
    case None
    with "2.IH"(1)[OF None m] show ?thesis by simp
  next
    case (Some n)
    with m have n: "\<not> (n = 0 \<and> cur = [])" by (auto dest: heading_match_bounds)
    let ?rest = "drop n (c # cs)"
    let ?ps = "split_loop m [] ?rest"
    from "2.IH"(3)[OF Some n m] obtain ds where ds: "length ?ps = Suc (length ds)"
        "[] @ ?rest = interleave ?ps ds" "\<forall>d\<in>set ds. is_heading d"
        "list_all no_digit_start (tl ?ps)" by blast
    let ?d = "take n (c # cs)"
    have h: "is_heading ?d"
      using Some m heading_match_is_heading[of "c # cs" n] by simp
    obtain p ps where p: "?ps = p # ps" "prefix p ([] @ ?rest)"
      using split_loop_first[of m "[]" ?rest] by blast
    have g: "no_digit_start ?rest" using Some m by (simp add: heading_match_greedy)
    have "no_digit_start p"
    proof (cases p)
      case Nil then show ?thesis by simp
    next
      case (Cons x xs)
      with p(2) obtain ys where "?rest = x # ys" by (auto simp: prefix_def)
      with g Cons show ?thesis by simp
    qed
    with p ds(4) have a: "list_all no_digit_start ?ps" by simp
    have s: "split_loop m cur (c # cs) = cur # ?ps" using Some n by simp
    have "cur @ c # cs = cur @ ?d @ ?rest" by simp
    also have "\<dots> = interleave (cur # ?ps) (?d # ds)" using ds(2) p(1) by simp
    finally have i: "cur @ c # cs = interleave (cur # ?ps) (?d # ds)" .
    show ?thesis
      unfolding s using ds(1,3) h a i
      by (intro exI[of _ "?d # ds"]) simp
  qed
qed

lemma split_regexp_cut:
  "\<exists>ds. length (split_regexp heading_match t) = Suc (length ds) \<and>
        t = interleave (split_regexp heading_match t) ds \<and>
        (\<forall>d\<in>set ds. is_heading d) \<and>
        list_all no_digit_start (tl (split_regexp heading_match t))"
proof (cases "t = []")
  case True
  then show ?thesis by (intro exI[of _ "[]"]) (simp add: split_regexp_def heading_match_Nil)
next
  case False
  with split_loop_cut[OF refl, of "[]" t] show ?thesis by (simp add: split_regexp_def)
qed

section \<open>The chapter segmenter: claims\<close>

lemmas seg_eval = segmentIntoChapters_def split_regexp_def heading_match_def js_def
  canonicalize_def is_digit_def trim_def is_ws_def

lemma map_trim_filter:
  "map trim (filter (\<lambda>c. trim c \<noteq> []) xs) = filter (\<lambda>s. s \<noteq> []) (map trim xs)"
  by (induction xs) auto

text \<open>
  C1, as stated, fails. The segmenter does not trim what it returns: for the text
  of the example (lines ``Chapter 1'', ``foo'', ``Chapter 2'', ``bar'') the result
  is not the two strings ``foo'' and ``bar''. And the heading has a space, not any
  white space: a tab between the word and the digits is no heading for the
  program, but is one for the specification.
\<close>

theorem segment_counterexample:
  "segmentIntoChapters (js ''Chapter 1'' @ [0x0A] @ js ''foo'' @ [0x0A] @ js ''Chapter 2'' @ [0x0A] @ js ''bar'')
     \<noteq> [js ''foo'', js ''bar''] \<and>
   segmentIntoChapters (js ''Chapter'' @ [0x09] @ js ''1 x'')
     \<noteq> spec_segment spec_heading_match (js ''Chapter'' @ [0x09] @ js ''1 x'')"
  by (simp add: seg_eval spec_segment_def spec_heading_match_def)

text \<open>
  C1, amended. Every text is a sequence of pieces with a heading between each two
  of them: each heading is the word, one space and one or more digits
  (case-insensitive), taken with all the digits that follow; no piece contains a
  heading. The segmenter returns, in this order and as they are, the pieces that
  have a character other than white space; the headings are dropped. Trimming
  each returned chapter gives the trimmed pieces that are not empty.
\<close>

theorem segment_refines:
  "\<exists>ps ds. length ps = Suc (length ds) \<and> text = interleave ps ds \<and>
     (\<forall>d\<in>set ds. is_heading d) \<and>
     (\<forall>p\<in>set ps. \<not> (\<exists>pre h post. p = pre @ h @ post \<and> is_heading h)) \<and>
     list_all no_digit_start (tl ps) \<and>
     segmentIntoChapters text = filter (\<lambda>p. \<exists>u\<in>set p. \<not> is_ws u) ps \<and>
     map trim (segmentIntoChapters text) = filter (\<lambda>s. s \<noteq> []) (map trim ps)"
proof -
  let ?ps = "split_regexp heading_match text"
  obtain ds where ds: "length ?ps = Suc (length ds)" "text = interleave ?ps ds"
      "\<forall>d\<in>set ds. is_heading d" "list_all no_digit_start (tl ?ps)"
    using split_regexp_cut[of "text"] by (elim exE conjE) (rule that, assumption+)
  have "\<forall>p\<in>set ?ps. \<not> has_heading p" by (blast dest: split_regexp_no_heading)
  then have n: "\<forall>p\<in>set ?ps. \<not> (\<exists>pre h post. p = pre @ h @ post \<and> is_heading h)"
    by (simp only: has_heading_iff)
  have "(\<lambda>c. trim c \<noteq> []) = (\<lambda>c. \<exists>u\<in>set c. \<not> is_ws u)"
    by (simp add: trim_empty_iff)
  then have f: "segmentIntoChapters text = filter (\<lambda>p. \<exists>u\<in>set p. \<not> is_ws u) ?ps"
    by (simp add: segmentIntoChapters_def)
  have t: "map trim (segmentIntoChapters text) = filter (\<lambda>s. s \<noteq> []) (map trim ?ps)"
    by (simp only: segmentIntoChapters_def Let_def map_trim_filter)
  show ?thesis by (intro exI[of _ ?ps] exI[of _ ds] conjI ds n f t)
qed

text \<open>
  C1 at the example: the text is an empty piece, the first heading, the piece
  ``foo'' between line breaks, the second heading, and a line break with ``bar'';
  the two chapters are returned with their line breaks, and trim to ``foo'' and
  ``bar''. And at a text whose heading mixes the cases and has all ten digits.
\<close>

theorem segment_refines_witness:
  "js ''Chapter 1'' @ [0x0A] @ js ''foo'' @ [0x0A] @ js ''Chapter 2'' @ [0x0A] @ js ''bar'' = interleave [[], [0x0A] @ js ''foo'' @ [0x0A], [0x0A] @ js ''bar'']
           [js ''Chapter 1'', js ''Chapter 2''] \<and>
   is_heading (js ''Chapter 1'') \<and> is_heading (js ''Chapter 2'') \<and>
   segmentIntoChapters (js ''Chapter 1'' @ [0x0A] @ js ''foo'' @ [0x0A] @ js ''Chapter 2'' @ [0x0A] @ js ''bar'')
     = [[0x0A] @ js ''foo'' @ [0x0A], [0x0A] @ js ''bar''] \<and>
   map trim (segmentIntoChapters (js ''Chapter 1'' @ [0x0A] @ js ''foo'' @ [0x0A] @ js ''Chapter 2'' @ [0x0A] @ js ''bar'')) = [js ''foo'', js ''bar''] \<and>
   is_heading (js ''cHaPtEr 0123456789'') \<and>
   segmentIntoChapters (js ''A cHaPtEr 0123456789 B'') = [js ''A '', js '' B'']"
  using segment_refines [of "js ''Chapter 1'' @ [0x0A] @ js ''foo'' @ [0x0A] @ js ''Chapter 2'' @ [0x0A] @ js ''bar''"]
  by (simp add: seg_eval is_heading_def)

text \<open>
  C2, as stated, fails. The empty text and a text that is only a heading give no
  chapter at all; and a text without a heading is returned as it is, not trimmed.
\<close>

theorem no_chapter_counterexample:
  "segmentIntoChapters [] = [] \<and>
   segmentIntoChapters (js ''Chapter 1'') = [] \<and>
   \<not> has_heading (js '' foo'') \<and>
   segmentIntoChapters (js '' foo'') \<noteq> [trim (js '' foo'')]"
  by (simp add: seg_eval)

text \<open>
  C2, amended. When the heading matches nowhere in the text, the segmenter returns
  no chapter if the text is empty or white space only, and otherwise exactly one
  chapter, the whole text as it is; trimmed, it is the trimmed whole text.
\<close>

theorem segment_no_heading:
  "\<not> has_heading text \<Longrightarrow>
     segmentIntoChapters text = (if trim text = [] then [] else [text]) \<and>
     map trim (segmentIntoChapters text) = (if trim text = [] then [] else [trim text])"
  by (simp add: segmentIntoChapters_def split_regexp_no_match)

text \<open>C2 at a text without heading that starts with a space.\<close>

theorem segment_no_heading_witness:
  "\<not> has_heading (js '' foo'') \<and> segmentIntoChapters (js '' foo'') = [js '' foo''] \<and>
   map trim (segmentIntoChapters (js '' foo'')) = [js ''foo'']"
  using segment_no_heading [of "js '' foo''"]
  by (simp add: heading_match_def js_def canonicalize_def is_digit_def trim_def is_ws_def)

text \<open>
  C8. No chapter of the result is empty or white space only, and every piece of
  the split that trims to the empty string is left out of the result.
\<close>

theorem segment_no_blank:
  "(\<forall>c\<in>set (segmentIntoChapters text). c \<noteq> [] \<and> (\<exists>u\<in>set c. \<not> is_ws u) \<and> trim c \<noteq> []) \<and>
   (\<forall>c\<in>set (split_regexp heading_match text). trim c = [] \<longrightarrow> c \<notin> set (segmentIntoChapters text))"
  by (auto simp: segmentIntoChapters_def trim_empty_iff)

text \<open>
  C8 at a text whose first heading is followed by a space and a line break only:
  that piece and the empty piece before the first heading are left out.
\<close>

theorem segment_no_blank_witness:
  "split_regexp heading_match (js ''Chapter 1'' @ [0x20, 0x0A] @ js ''Chapter 2 x'')
     = [[], [0x20, 0x0A], js '' x''] \<and>
   trim [0x20, 0x0A] = [] \<and>
   segmentIntoChapters (js ''Chapter 1'' @ [0x20, 0x0A] @ js ''Chapter 2 x'') = [js '' x'']"
  using segment_no_blank [of "js ''Chapter 1'' @ [0x20, 0x0A] @ js ''Chapter 2 x''"]
  by (simp add: seg_eval)

text \<open>
  C10. The chapters of the result lie in the text one after the other, in the
  order of the result; each is a contiguous part of the text; and none contains
  the word, a space and one or more digits (case-insensitive).
\<close>

theorem segment_in_order:
  "in_order (segmentIntoChapters text) text \<and>
   (\<forall>c\<in>set (segmentIntoChapters text).
      sublist c text \<and> \<not> (\<exists>pre h post. c = pre @ h @ post \<and> is_heading h))"
proof -
  have o: "in_order (segmentIntoChapters text) text"
    by (simp add: segmentIntoChapters_def split_regexp_in_order)
  have "\<forall>c\<in>set (segmentIntoChapters text). \<not> has_heading c"
    by (auto simp: segmentIntoChapters_def dest: split_regexp_no_heading)
  then have "\<forall>c\<in>set (segmentIntoChapters text).
      \<not> (\<exists>pre h post. c = pre @ h @ post \<and> is_heading h)"
    by (simp only: has_heading_iff)
  with o show ?thesis by (blast intro: in_order_sublist)
qed

text \<open>C10 at a text with two headings in different cases.\<close>

theorem segment_in_order_witness:
  "segmentIntoChapters (js ''a chapter 12 b CHAPTER 3'') = [js ''a '', js '' b ''] \<and>
   in_order [js ''a '', js '' b ''] (js ''a chapter 12 b CHAPTER 3'') \<and>
   sublist (js '' b '') (js ''a chapter 12 b CHAPTER 3'')"
  using segment_in_order [of "js ''a chapter 12 b CHAPTER 3''"]
  by (simp add: seg_eval)


section \<open>Properties of the loop over the chapters\<close>

declare chapter_loop.simps [simp del]

lemma getSummary_eq:
  "getSummaryFromDeepSeek env text w = (r, w') \<Longrightarrow>
     r = answer env (length (sent w)) text \<and> table w' = table w \<and> sent w' = sent w @ [text] \<and>
     files w' = files w \<and> unlink_calls w' = unlink_calls w"
  by (auto simp: getSummaryFromDeepSeek_def answer_def Let_def split: option.splits)

lemma process_chapter_Inr:
  assumes "chapter_outcome env b tb chapters i = Inr r"
    and "length (sent w) = b + i" and "length (table w) = tb + i"
  shows "\<exists>w'. process_chapter env chapters i w = (None, w') \<and> table w' = table w @ [r] \<and>
           sent w' = sent w @ [chapters ! i] \<and> files w' = files w \<and>
           unlink_calls w' = unlink_calls w"
  using assms
  by (auto simp: process_chapter_def chapter_outcome_def getSummaryFromDeepSeek_def answer_def
        storeSummaryInSupabase_def row_of_def Let_def split: option.splits if_splits sum.splits)

lemma process_chapter_Inl:
  assumes "chapter_outcome env b tb chapters i = Inl e"
    and "length (sent w) = b + i" and "length (table w) = tb + i"
  shows "\<exists>w'. process_chapter env chapters i w = (Some e, w') \<and> table w' = table w \<and>
           sent w' = sent w @ [chapters ! i] \<and> files w' = files w \<and>
           unlink_calls w' = unlink_calls w"
  using assms
  by (auto simp: process_chapter_def chapter_outcome_def getSummaryFromDeepSeek_def answer_def
        storeSummaryInSupabase_def row_of_def Let_def split: option.splits if_splits sum.splits)


lemma outcomes_Cons:
  assumes "map f [i..<n] = map Inr (r # rs)"
  shows "i < n \<and> f i = Inr r \<and> map f [Suc i..<n] = map Inr rs"
proof -
  have "length (map f [i..<n]) = length (map Inr (r # rs) :: ('c + 'b) list)"
    using assms by simp
  then have "i < n" by simp
  then have "[i..<n] = i # [Suc i..<n]" by (rule upt_conv_Cons)
  with assms \<open>i < n\<close> show ?thesis by simp
qed

lemma chapter_loop_fail:
  assumes "map (chapter_outcome env b tb chapters) [i..<n] = map Inr rs"
    and "chapter_outcome env b tb chapters n = Inl e"
    and "i \<le> n" and "n < length chapters"
    and "length (sent w) = b + i" and "length (table w) = tb + i"
  shows "\<exists>w'. chapter_loop env chapters i w = (Some e, w') \<and> table w' = table w @ rs \<and>
           sent w' = sent w @ take (Suc n - i) (drop i chapters) \<and> files w' = files w \<and>
           unlink_calls w' = unlink_calls w"
  using assms
proof (induction rs arbitrary: i w)
  case Nil
  then have "i = n" by auto
  with Nil obtain w' where w': "process_chapter env chapters i w = (Some e, w')"
      "table w' = table w" "sent w' = sent w @ [chapters ! i]" "files w' = files w"
      "unlink_calls w' = unlink_calls w"
    using process_chapter_Inl[of env b tb chapters i e w] by auto
  from \<open>i = n\<close> Nil have "i < length chapters" by simp
  then have "take (Suc 0) (drop i chapters) = [chapters ! i]"
    by (simp add: take_Suc_conv_app_nth)
  with w' \<open>i = n\<close> \<open>i < length chapters\<close> show ?case
    by (subst chapter_loop.simps) simp
next
  case (Cons r rs)
  from Cons.prems(1) have i: "i < n" "chapter_outcome env b tb chapters i = Inr r"
    "map (chapter_outcome env b tb chapters) [Suc i..<n] = map Inr rs"
    using outcomes_Cons[of "chapter_outcome env b tb chapters" i n r rs] by auto
  with Cons.prems obtain w1 where w1: "process_chapter env chapters i w = (None, w1)"
      "table w1 = table w @ [r]" "sent w1 = sent w @ [chapters ! i]" "files w1 = files w"
      "unlink_calls w1 = unlink_calls w"
    using process_chapter_Inr[of env b tb chapters i r w] by auto
  from i Cons.prems w1 obtain w' where w': "chapter_loop env chapters (Suc i) w1 = (Some e, w')"
      "table w' = table w1 @ rs"
      "sent w' = sent w1 @ take (Suc n - Suc i) (drop (Suc i) chapters)" "files w' = files w1"
      "unlink_calls w' = unlink_calls w1"
    using Cons.IH[of "Suc i" w1] by auto
  from i Cons.prems have il: "i < length chapters" by simp
  then have "drop i chapters = chapters ! i # drop (Suc i) chapters"
    by (simp add: Cons_nth_drop_Suc)
  moreover from i have "Suc n - i = Suc (n - i)" by simp
  ultimately have "take (Suc n - i) (drop i chapters)
      = chapters ! i # take (Suc n - Suc i) (drop (Suc i) chapters)" by simp
  with w1 w' il show ?case
    by (subst chapter_loop.simps) simp
qed

lemma chapter_loop_ok:
  assumes "map (chapter_outcome env b tb chapters) [i..<length chapters] = map Inr rs"
    and "i \<le> length chapters"
    and "length (sent w) = b + i" and "length (table w) = tb + i"
  shows "\<exists>w'. chapter_loop env chapters i w = (None, w') \<and> table w' = table w @ rs \<and>
           sent w' = sent w @ drop i chapters \<and> files w' = files w \<and>
           unlink_calls w' = unlink_calls w"
  using assms
proof (induction rs arbitrary: i w)
  case Nil
  then have "i = length chapters" by auto
  then show ?case by (subst chapter_loop.simps) simp
next
  case (Cons r rs)
  from Cons.prems(1) have i: "i < length chapters" "chapter_outcome env b tb chapters i = Inr r"
    "map (chapter_outcome env b tb chapters) [Suc i..<length chapters] = map Inr rs"
    using outcomes_Cons[of "chapter_outcome env b tb chapters" i "length chapters" r rs] by auto
  with Cons.prems obtain w1 where w1: "process_chapter env chapters i w = (None, w1)"
      "table w1 = table w @ [r]" "sent w1 = sent w @ [chapters ! i]" "files w1 = files w"
      "unlink_calls w1 = unlink_calls w"
    using process_chapter_Inr[of env b tb chapters i r w] by auto
  from i Cons.prems w1 obtain w' where w': "chapter_loop env chapters (Suc i) w1 = (None, w')"
      "table w' = table w1 @ rs"
      "sent w' = sent w1 @ drop (Suc i) chapters" "files w' = files w1"
      "unlink_calls w' = unlink_calls w1"
    using Cons.IH[of "Suc i" w1] by auto
  from i have "drop i chapters = chapters ! i # drop (Suc i) chapters"
    by (simp add: Cons_nth_drop_Suc)
  with w1 w' i show ?case
    by (subst chapter_loop.simps) simp
qed

lemma outcome_Inr:
  "chapter_outcome env b tb chapters m = Inr r \<Longrightarrow>
     \<exists>result. answer env (b + m) (chapters ! m) = Inr result \<and> result \<noteq> JNull \<and>
       insert_error env (tb + m) r = None \<and> r = row_of m result"
  by (auto simp: chapter_outcome_def split: sum.splits if_splits option.splits)

lemma outcome_rows:
  assumes "map (chapter_outcome env b tb chapters) [i..<n] = map Inr rs"
  shows "length rs = n - i \<and> map chapter_number rs = [i + 1..<n + 1] \<and>
         (\<forall>k<length rs. \<exists>result. answer env (b + (i + k)) (chapters ! (i + k)) = Inr result \<and>
              rs ! k = row_of (i + k) result)"
  using assms
proof (induction rs arbitrary: i)
  case Nil
  then have "n \<le> i" by auto
  then show ?case by simp
next
  case (Cons r rs)
  from Cons.prems have i: "i < n" "chapter_outcome env b tb chapters i = Inr r"
    "map (chapter_outcome env b tb chapters) [Suc i..<n] = map Inr rs"
    using outcomes_Cons[of "chapter_outcome env b tb chapters" i n r rs] by auto
  from i(2) obtain result where r: "answer env (b + i) (chapters ! i) = Inr result"
      "r = row_of i result"
    by (blast dest: outcome_Inr)
  from Cons.IH[OF i(3)] have ih: "length rs = n - Suc i"
      "map chapter_number rs = [Suc i + 1..<n + 1]"
      "\<forall>k<length rs. \<exists>result. answer env (b + (Suc i + k)) (chapters ! (Suc i + k)) = Inr result \<and>
              rs ! k = row_of (Suc i + k) result"
    by auto
  have l: "length (r # rs) = n - i" using ih(1) i(1) by simp
  have c: "map chapter_number (r # rs) = [i + 1..<n + 1]"
    using ih(2) r(2) i(1) by (simp add: row_of_def upt_conv_Cons)
  have a: "\<forall>k<length (r # rs). \<exists>result.
      answer env (b + (i + k)) (chapters ! (i + k)) = Inr result \<and>
      (r # rs) ! k = row_of (i + k) result"
  proof (intro allI impI)
    fix k assume k: "k < length (r # rs)"
    show "\<exists>result. answer env (b + (i + k)) (chapters ! (i + k)) = Inr result \<and>
      (r # rs) ! k = row_of (i + k) result"
    proof (cases k)
      case 0 with r show ?thesis by simp
    next
      case (Suc k')
      with k ih(3) show ?thesis by simp
    qed
  qed
  from l c a show ?case by blast
qed

section \<open>The upload handler: claims\<close>

lemmas run_eval = upload_handler_def extractTextFromPDF_def chapter_loop.simps process_chapter_def
  getSummaryFromDeepSeek_def storeSummaryInSupabase_def unlink_def catch_block_def Let_def
  env_ok_def env_network_def env_prose_def env_locked_def world0_def book_def two_chapters_def
  example_answer_def example_json_def example_parse_def example_result_def example_row_def

lemma seg2: "segmentIntoChapters two_chapters = [js '' a '', js '' b'']"
  by (simp add: seg_eval two_chapters_def)


lemma upload_failure:
  assumes "req_file env = Some filePath" and "pdf_text env filePath = Some text"
    and "map (chapter_outcome env (length (sent w)) (length (table w)) (segmentIntoChapters text))
           [0..<n] = map Inr rs"
    and "chapter_outcome env (length (sent w)) (length (table w)) (segmentIntoChapters text) n = Inl e"
    and "n < length (segmentIntoChapters text)"
  shows "\<exists>w'. upload_handler env w =
             (Response 500 ''An error occurred while processing the book.'', w') \<and>
           table w' = table w @ rs \<and>
           sent w' = sent w @ take (Suc n) (segmentIntoChapters text) \<and>
           files w' = files w \<and> unlink_calls w' = unlink_calls w \<and>
           (\<exists>cs. console w' = cs @ [Caught e])"
proof -
  let ?chapters = "segmentIntoChapters text"
  obtain w1 where w1: "chapter_loop env ?chapters 0 w = (Some e, w1)" "table w1 = table w @ rs"
      "sent w1 = sent w @ take (Suc n - 0) (drop 0 ?chapters)" "files w1 = files w"
      "unlink_calls w1 = unlink_calls w"
    using chapter_loop_fail[OF assms(3) assms(4) _ assms(5), where w=w] by auto
  with assms(1,2) show ?thesis
    by (simp add: upload_handler_def extractTextFromPDF_def catch_block_def)
qed

lemma upload_processed:
  assumes "req_file env = Some filePath" and "pdf_text env filePath = Some text"
    and "map (chapter_outcome env (length (sent w)) (length (table w)) (segmentIntoChapters text))
           [0..<length (segmentIntoChapters text)] = map Inr rs"
  shows "\<exists>w1. chapter_loop env (segmentIntoChapters text) 0 w = (None, w1) \<and>
           table w1 = table w @ rs \<and> sent w1 = sent w @ segmentIntoChapters text \<and>
           files w1 = files w \<and> unlink_calls w1 = unlink_calls w \<and>
           upload_handler env w =
             (case unlink env filePath w1 of
                (Some e, w2) \<Rightarrow> catch_block e w2
              | (None, w2) \<Rightarrow> (Response 200 ''Book processed successfully!'', w2))"
proof -
  let ?chapters = "segmentIntoChapters text"
  obtain w1 where w1: "chapter_loop env ?chapters 0 w = (None, w1)" "table w1 = table w @ rs"
      "sent w1 = sent w @ drop 0 ?chapters" "files w1 = files w"
      "unlink_calls w1 = unlink_calls w"
    using chapter_loop_ok[OF assms(3), where w=w] by auto
  with assms(1,2) show ?thesis
    by (simp add: upload_handler_def extractTextFromPDF_def)
qed





lemmas chapters_eval = chapter_outcome_def answer_def row_of_def


text \<open>
  C5. When the request has its file, the text is extracted and every chapter of
  the \<open>N\<close> the segmenter returns is summarized and stored (its outcome is a row),
  the handler has appended exactly \<open>N\<close> rows to the table, numbered \<open>1\<close> to \<open>N\<close>
  in this order. When the parsed answer for a chapter is an object, the summary
  and each of the six scores of its row are the value the object has under the
  key of that name, as it is, and \<^verbatim>\<open>undefined\<close> when it has none; when the answer
  is no object, they all are \<^verbatim>\<open>undefined\<close>. The answer of the handler is the
  confirmation when the file is deleted.
\<close>

theorem upload_success_rows:
  assumes "req_file env = Some filePath" and "pdf_text env filePath = Some text"
    and "map (chapter_outcome env (length (sent w)) (length (table w)) (segmentIntoChapters text))
           [0..<length (segmentIntoChapters text)] = map Inr rs"
  shows "table (snd (upload_handler env w)) = table w @ rs \<and>
         length rs = length (segmentIntoChapters text) \<and>
         map chapter_number rs = [1..<length (segmentIntoChapters text) + 1] \<and>
         (\<forall>k<length rs. \<exists>result.
            answer env (length (sent w) + k) (segmentIntoChapters text ! k) = Inr result \<and>
            (\<forall>kvs. result = JObj kvs \<longrightarrow>
               rs ! k =
                 \<lparr>chapter_number = k + 1, summary = map_of kvs (js ''summary''),
                  clarity_score = map_of kvs (js ''clarity_score''),
                  cohesion_score = map_of kvs (js ''cohesion_score''),
                  coverage_score = map_of kvs (js ''coverage_score''),
                  granularity_score = map_of kvs (js ''granularity_score''),
                  storytelling_score = map_of kvs (js ''storytelling_score''),
                  overall_score = map_of kvs (js ''overall_score'')\<rparr>) \<and>
            ((\<forall>kvs. result \<noteq> JObj kvs) \<longrightarrow>
               rs ! k =
                 \<lparr>chapter_number = k + 1, summary = None, clarity_score = None,
                  cohesion_score = None, coverage_score = None, granularity_score = None,
                  storytelling_score = None, overall_score = None\<rparr>)) \<and>
         (unlink_ok env filePath \<longrightarrow>
            fst (upload_handler env w) = Response 200 ''Book processed successfully!'')"
proof -
  let ?chapters = "segmentIntoChapters text"
  obtain w1 where w1: "table w1 = table w @ rs"
      "upload_handler env w =
         (case unlink env filePath w1 of
            (Some e, w2) \<Rightarrow> catch_block e w2
          | (None, w2) \<Rightarrow> (Response 200 ''Book processed successfully!'', w2))"
    using upload_processed[OF assms(1,2,3)] by (elim exE conjE) (rule that, assumption+)
  have t: "table (snd (upload_handler env w)) = table w @ rs"
    using w1 by (cases "unlink_ok env filePath") (simp_all add: unlink_def catch_block_def Let_def)
  have u: "unlink_ok env filePath \<longrightarrow>
      fst (upload_handler env w) = Response 200 ''Book processed successfully!''"
    using w1(2) by (simp add: unlink_def Let_def)
  have rows: "length rs = length ?chapters" "map chapter_number rs = [1..<length ?chapters + 1]"
      "\<forall>k<length rs. \<exists>result. answer env (length (sent w) + (0 + k)) (?chapters ! (0 + k)) = Inr result \<and>
              rs ! k = row_of (0 + k) result"
    using outcome_rows[OF assms(3)] by simp_all
  have fields: "\<forall>k<length rs. \<exists>result.
            answer env (length (sent w) + k) (?chapters ! k) = Inr result \<and>
            (\<forall>kvs. result = JObj kvs \<longrightarrow>
               rs ! k =
                 \<lparr>chapter_number = k + 1, summary = map_of kvs (js ''summary''),
                  clarity_score = map_of kvs (js ''clarity_score''),
                  cohesion_score = map_of kvs (js ''cohesion_score''),
                  coverage_score = map_of kvs (js ''coverage_score''),
                  granularity_score = map_of kvs (js ''granularity_score''),
                  storytelling_score = map_of kvs (js ''storytelling_score''),
                  overall_score = map_of kvs (js ''overall_score'')\<rparr>) \<and>
            ((\<forall>kvs. result \<noteq> JObj kvs) \<longrightarrow>
               rs ! k =
                 \<lparr>chapter_number = k + 1, summary = None, clarity_score = None,
                  cohesion_score = None, coverage_score = None, granularity_score = None,
                  storytelling_score = None, overall_score = None\<rparr>)"
  proof (intro allI impI)
    fix k assume "k < length rs"
    with rows(3) obtain result where r:
      "answer env (length (sent w) + k) (?chapters ! k) = Inr result" "rs ! k = row_of k result"
      by auto
    have o: "\<forall>kvs. result = JObj kvs \<longrightarrow>
               rs ! k =
                 \<lparr>chapter_number = k + 1, summary = map_of kvs (js ''summary''),
                  clarity_score = map_of kvs (js ''clarity_score''),
                  cohesion_score = map_of kvs (js ''cohesion_score''),
                  coverage_score = map_of kvs (js ''coverage_score''),
                  granularity_score = map_of kvs (js ''granularity_score''),
                  storytelling_score = map_of kvs (js ''storytelling_score''),
                  overall_score = map_of kvs (js ''overall_score'')\<rparr>"
      using r(2) by (simp add: row_of_def)
    have n: "(\<forall>kvs. result \<noteq> JObj kvs) \<longrightarrow>
               rs ! k =
                 \<lparr>chapter_number = k + 1, summary = None, clarity_score = None,
                  cohesion_score = None, coverage_score = None, granularity_score = None,
                  storytelling_score = None, overall_score = None\<rparr>"
      using r(2) by (cases result) (simp_all add: row_of_def)
    show "\<exists>result.
            answer env (length (sent w) + k) (?chapters ! k) = Inr result \<and>
            (\<forall>kvs. result = JObj kvs \<longrightarrow>
               rs ! k =
                 \<lparr>chapter_number = k + 1, summary = map_of kvs (js ''summary''),
                  clarity_score = map_of kvs (js ''clarity_score''),
                  cohesion_score = map_of kvs (js ''cohesion_score''),
                  coverage_score = map_of kvs (js ''coverage_score''),
                  granularity_score = map_of kvs (js ''granularity_score''),
                  storytelling_score = map_of kvs (js ''storytelling_score''),
                  overall_score = map_of kvs (js ''overall_score'')\<rparr>) \<and>
            ((\<forall>kvs. result \<noteq> JObj kvs) \<longrightarrow>
               rs ! k =
                 \<lparr>chapter_number = k + 1, summary = None, clarity_score = None,
                  cohesion_score = None, coverage_score = None, granularity_score = None,
                  storytelling_score = None, overall_score = None\<rparr>)"
      by (intro exI[of _ result] conjI r(1) o n)
  qed
  show ?thesis by (intro conjI t rows(1) rows(2) fields u)
qed

text \<open>
  C5 at the book of two chapters, where each answer is an object with the summary
  and six different scores, two of them out of range: two rows, numbered 1 and 2,
  each with these seven values.
\<close>

theorem upload_success_rows_witness:
  "chapter_outcome env_ok 0 0 (segmentIntoChapters two_chapters) 0 = Inr (example_row 1) \<and>
   chapter_outcome env_ok 0 0 (segmentIntoChapters two_chapters) 1 = Inr (example_row 2) \<and>
   json_parse env_ok (trim (strip_fences example_answer)) = Some example_result \<and>
   answer env_ok 1 (js '' b'') = Inr example_result \<and>
   example_row 2 =
     \<lparr>chapter_number = 2, summary = Some (JStr (js ''s'')),
      clarity_score = Some (JNum 9), cohesion_score = Some (JNum 8),
      coverage_score = Some (JNum 7), granularity_score = Some (JNum (- 1)),
      storytelling_score = Some (JNum 10), overall_score = Some (JNum 99)\<rparr> \<and>
   unlink_ok env_ok book \<and>
   upload_handler env_ok world0 =
     (Response 200 ''Book processed successfully!'',
      \<lparr>table = [example_row 1, example_row 2], sent = [js '' a '', js '' b''], files = {},
       unlink_calls = [book], console = [Processing 1, Stored 1, Processing 2, Stored 2]\<rparr>)"
proof -
  have h1: "req_file env_ok = Some book" by (simp add: env_ok_def)
  have h2: "pdf_text env_ok book = Some two_chapters" by (simp add: env_ok_def)
  have p: "json_parse env_ok (trim (strip_fences example_answer)) = Some example_result"
    by (simp add: env_ok_def example_answer_def example_json_def example_parse_def js_def
        trim_def is_ws_def)
  have a: "answer env_ok n t = Inr example_result" for n t
    using p by (simp add: answer_def) (simp add: env_ok_def)
  have x: "example_row 2 =
     \<lparr>chapter_number = 2, summary = Some (JStr (js ''s'')),
      clarity_score = Some (JNum 9), cohesion_score = Some (JNum 8),
      coverage_score = Some (JNum 7), granularity_score = Some (JNum (- 1)),
      storytelling_score = Some (JNum 10), overall_score = Some (JNum 99)\<rparr>"
    by (simp add: example_row_def)
  have ie: "insert_error env_ok n r = None" for n r by (simp add: env_ok_def)
  have o: "chapter_outcome env_ok 0 0 (segmentIntoChapters two_chapters) m = Inr (example_row (m + 1))"
    for m
    by (simp add: chapter_outcome_def a ie row_of_def example_row_def example_result_def js_def)
  have o0: "chapter_outcome env_ok 0 0 (segmentIntoChapters two_chapters) 0 = Inr (example_row 1)"
    using o[of 0] by simp
  have o1: "chapter_outcome env_ok 0 0 (segmentIntoChapters two_chapters) 1 = Inr (example_row 2)"
    using o[of 1] by (simp add: numeral_2_eq_2)
  have h3: "map (chapter_outcome env_ok (length (sent world0)) (length (table world0))
           (segmentIntoChapters two_chapters)) [0..<length (segmentIntoChapters two_chapters)]
     = map Inr [example_row 1, example_row 2]"
    by (simp add: seg2 world0_def o[simplified seg2] numeral_2_eq_2)
  have h4: "unlink_ok env_ok book" by (simp add: env_ok_def)
  have r: "table (snd (upload_handler env_ok world0)) = table world0 @ [example_row 1, example_row 2]"
      "fst (upload_handler env_ok world0) = Response 200 ''Book processed successfully!''"
    using upload_success_rows[OF h1 h2 h3] h4 by simp_all
  have e: "upload_handler env_ok world0 =
     (Response 200 ''Book processed successfully!'',
      \<lparr>table = [example_row 1, example_row 2], sent = [js '' a '', js '' b''], files = {},
       unlink_calls = [book], console = [Processing 1, Stored 1, Processing 2, Stored 2]\<rparr>)"
    by (simp add: run_eval seg_eval)
  from r e o0 o1 p a[of 1 "js '' b''"] x h4 show ?thesis by simp
qed

text \<open>
  C6. When the chapters at the indices below \<open>n\<close> are summarized and stored and
  the chapter at index \<open>n\<close> fails, in the call of the model, in the parse or in
  the insertion, the handler answers with the error response; the table holds the
  \<open>n\<close> rows of the chapters before, numbered \<open>1\<close> to \<open>n\<close>, and no other new
  row; the chapter at index \<open>n\<close> is the last one sent to the model; and the
  exception of that chapter is the one caught.
\<close>

theorem upload_failure_keeps_rows:
  assumes "req_file env = Some filePath" and "pdf_text env filePath = Some text"
    and "n < length (segmentIntoChapters text)"
    and "map (chapter_outcome env (length (sent w)) (length (table w)) (segmentIntoChapters text))
           [0..<n] = map Inr rs"
    and "chapter_outcome env (length (sent w)) (length (table w)) (segmentIntoChapters text) n = Inl e"
  shows "\<exists>w'. upload_handler env w =
             (Response 500 ''An error occurred while processing the book.'', w') \<and>
           table w' = table w @ rs \<and> length rs = n \<and>
           map chapter_number rs = [1..<n + 1] \<and>
           sent w' = sent w @ take (Suc n) (segmentIntoChapters text) \<and>
           (\<exists>cs. console w' = cs @ [Caught e])"
proof -
  obtain w' cs where w': "upload_handler env w =
        (Response 500 ''An error occurred while processing the book.'', w')"
      "table w' = table w @ rs" "sent w' = sent w @ take (Suc n) (segmentIntoChapters text)"
    and c: "console w' = cs @ [Caught e]"
    using upload_failure[OF assms(1,2,4,5,3)] by (elim exE conjE) (rule that, assumption+)
  have rows: "length rs = n" "map chapter_number rs = [1..<n + 1]"
    using outcome_rows[OF assms(4)] by simp_all
  from c have l: "\<exists>cs. console w' = cs @ [Caught e]" by (rule exI)
  show ?thesis by (intro exI[of _ w'] conjI w' rows l)
qed

text \<open>
  C6 at the book of two chapters, when the call for the second chapter throws:
  the row of the first chapter stays, and nothing is stored for the second.
\<close>

theorem upload_failure_keeps_rows_witness:
  "chapter_outcome env_network 0 0 (segmentIntoChapters two_chapters) 0 = Inr (example_row 1) \<and>
   chapter_outcome env_network 0 0 (segmentIntoChapters two_chapters) 1 = Inl ApiError \<and>
   upload_handler env_network world0 =
     (Response 500 ''An error occurred while processing the book.'',
      \<lparr>table = [example_row 1], sent = [js '' a '', js '' b''], files = {book},
       unlink_calls = [],
       console = [Processing 1, Stored 1, Processing 2, Caught ApiError]\<rparr>)"
proof -
  have h1: "req_file env_network = Some book" by (simp add: env_network_def env_ok_def)
  have h2: "pdf_text env_network book = Some two_chapters"
    by (simp add: env_network_def env_ok_def)
  have h3: "1 < length (segmentIntoChapters two_chapters)" by (simp add: seg2)
  have a0: "answer env_network 0 t = Inr example_result" for t
    by (simp add: answer_def env_network_def env_ok_def example_answer_def example_json_def example_parse_def
        js_def trim_def is_ws_def)
  have ie: "insert_error env_network m r = None" for m r
    by (simp add: env_network_def env_ok_def)
  have o0: "chapter_outcome env_network 0 0 (segmentIntoChapters two_chapters) 0
      = Inr (example_row 1)"
    by (simp add: chapter_outcome_def a0 ie row_of_def example_row_def example_result_def js_def)
  have o1: "chapter_outcome env_network 0 0 (segmentIntoChapters two_chapters) 1 = Inl ApiError"
    by (simp add: chapter_outcome_def answer_def env_network_def env_ok_def)
  have h4: "map (chapter_outcome env_network (length (sent world0)) (length (table world0))
        (segmentIntoChapters two_chapters)) [0..<1] = map Inr [example_row 1]"
    using o0 by (simp add: world0_def)
  have h5: "chapter_outcome env_network (length (sent world0)) (length (table world0))
        (segmentIntoChapters two_chapters) 1 = Inl ApiError"
    using o1 by (simp add: world0_def)
  from upload_failure_keeps_rows[OF h1 h2 h3 h4 h5] obtain w' where
    r: "upload_handler env_network world0 =
         (Response 500 ''An error occurred while processing the book.'', w')"
      "table w' = table world0 @ [example_row 1]"
    by (elim exE conjE) (rule that, assumption+)
  have e: "upload_handler env_network world0 =
     (Response 500 ''An error occurred while processing the book.'',
      \<lparr>table = [example_row 1], sent = [js '' a '', js '' b''], files = {book},
       unlink_calls = [],
       console = [Processing 1, Stored 1, Processing 2, Caught ApiError]\<rparr>)"
    by (simp add: run_eval seg_eval)
  from r e o0 o1 show ?thesis by simp
qed

text \<open>
  C7, as stated, fails. With both chapters of the book summarized and stored, and
  a file that cannot be deleted, the answer is not the confirmation.
\<close>

theorem unlink_failure_counterexample:
  "chapter_loop env_locked (segmentIntoChapters two_chapters) 0 world0 =
     (None, \<lparr>table = [example_row 1, example_row 2], sent = [js '' a '', js '' b''],
             files = {book}, unlink_calls = [],
             console = [Processing 1, Stored 1, Processing 2, Stored 2]\<rparr>) \<and>
   \<not> unlink_ok env_locked book \<and>
   fst (upload_handler env_locked world0) \<noteq> Response 200 ''Book processed successfully!''"
  by (simp add: run_eval seg_eval)

text \<open>
  C7, amended. When every chapter is summarized and stored and the deletion of
  the file fails, the failure is logged by the \<^verbatim>\<open>catch\<close> block and the handler
  answers with the error response; the rows of all chapters are in the table, the
  deletion has been tried once and the file is still there.
\<close>

theorem unlink_failure_is_an_error:
  assumes "req_file env = Some filePath" and "pdf_text env filePath = Some text"
    and "map (chapter_outcome env (length (sent w)) (length (table w)) (segmentIntoChapters text))
           [0..<length (segmentIntoChapters text)] = map Inr rs"
    and "\<not> unlink_ok env filePath"
  shows "\<exists>w'. upload_handler env w =
             (Response 500 ''An error occurred while processing the book.'', w') \<and>
           table w' = table w @ rs \<and>
           unlink_calls w' = unlink_calls w @ [filePath] \<and>
           files w' = files w \<and>
           (\<exists>cs. console w' = cs @ [Caught UnlinkError])"
proof -
  obtain w1 where w1: "table w1 = table w @ rs" "files w1 = files w"
      "unlink_calls w1 = unlink_calls w"
      "upload_handler env w =
         (case unlink env filePath w1 of
            (Some e, w2) \<Rightarrow> catch_block e w2
          | (None, w2) \<Rightarrow> (Response 200 ''Book processed successfully!'', w2))"
    using upload_processed[OF assms(1,2,3)] by (elim exE conjE) (rule that, assumption+)
  let ?w' = "w1\<lparr>unlink_calls := unlink_calls w1 @ [filePath],
               console := console w1 @ [Caught UnlinkError]\<rparr>"
  have u: "upload_handler env w =
      (Response 500 ''An error occurred while processing the book.'', ?w')"
    using w1(4) assms(4) by (simp add: unlink_def catch_block_def)
  have t: "table ?w' = table w @ rs" using w1(1) by simp
  have c: "unlink_calls ?w' = unlink_calls w @ [filePath]" using w1(3) by simp
  have f: "files ?w' = files w" using w1(2) by simp
  have l: "\<exists>cs. console ?w' = cs @ [Caught UnlinkError]" by simp
  show ?thesis by (intro exI[of _ ?w'] conjI u t c f l)
qed

text \<open>
  C7 at the book of two chapters with a file that cannot be deleted.
\<close>

theorem unlink_failure_is_an_error_witness:
  "\<not> unlink_ok env_locked book \<and>
   upload_handler env_locked world0 =
     (Response 500 ''An error occurred while processing the book.'',
      \<lparr>table = [example_row 1, example_row 2], sent = [js '' a '', js '' b''],
       files = {book}, unlink_calls = [book],
       console = [Processing 1, Stored 1, Processing 2, Stored 2, Caught UnlinkError]\<rparr>)"
proof -
  have h1: "req_file env_locked = Some book" by (simp add: env_locked_def env_ok_def)
  have h2: "pdf_text env_locked book = Some two_chapters"
    by (simp add: env_locked_def env_ok_def)
  have a: "answer env_locked m t = Inr example_result" for m t
    by (simp add: answer_def env_locked_def env_ok_def example_answer_def example_json_def example_parse_def
        js_def trim_def is_ws_def)
  have ie: "insert_error env_locked m r = None" for m r
    by (simp add: env_locked_def env_ok_def)
  have o: "chapter_outcome env_locked 0 0 [js '' a '', js '' b''] m = Inr (example_row (m + 1))"
    for m
    by (simp add: chapter_outcome_def a ie row_of_def example_row_def example_result_def js_def)
  have h3: "map (chapter_outcome env_locked (length (sent world0)) (length (table world0))
           (segmentIntoChapters two_chapters)) [0..<length (segmentIntoChapters two_chapters)]
     = map Inr [example_row 1, example_row 2]"
    by (simp add: seg2 world0_def o numeral_2_eq_2)
  have h4: "\<not> unlink_ok env_locked book" by (simp add: env_locked_def)
  from unlink_failure_is_an_error[OF h1 h2 h3 h4] obtain w' where
    r: "upload_handler env_locked world0 =
         (Response 500 ''An error occurred while processing the book.'', w')"
      "table w' = table world0 @ [example_row 1, example_row 2]"
    by (elim exE conjE) (rule that, assumption+)
  have e: "upload_handler env_locked world0 =
     (Response 500 ''An error occurred while processing the book.'',
      \<lparr>table = [example_row 1, example_row 2], sent = [js '' a '', js '' b''],
       files = {book}, unlink_calls = [book],
       console = [Processing 1, Stored 1, Processing 2, Stored 2, Caught UnlinkError]\<rparr>)"
    by (simp add: run_eval seg_eval)
  from r e h4 show ?thesis by simp
qed

text \<open>
  The loop touches neither the files nor \<^verbatim>\<open>fs.unlink\<close>, and a request that does
  not end with the confirmation leaves every file where it is.
\<close>

lemma process_chapter_files:
  "process_chapter env chapters i w = (r, w') \<Longrightarrow>
     files w' = files w \<and> unlink_calls w' = unlink_calls w"
  by (auto simp: process_chapter_def getSummaryFromDeepSeek_def storeSummaryInSupabase_def Let_def
        split: option.splits if_splits sum.splits prod.splits)

lemma chapter_loop_files:
  "chapter_loop env chapters i w = (r, w') \<Longrightarrow>
     files w' = files w \<and> unlink_calls w' = unlink_calls w"
proof (induction env chapters i w rule: chapter_loop.induct)
  case (1 env chapters i w)
  show ?case
  proof (cases "i < length chapters")
    case False
    with "1.prems" show ?thesis by (simp add: chapter_loop.simps)
  next
    case True
    obtain r1 w1 where p: "process_chapter env chapters i w = (r1, w1)" by (cases "process_chapter env chapters i w")
    then have f: "files w1 = files w \<and> unlink_calls w1 = unlink_calls w"
      by (rule process_chapter_files)
    show ?thesis
    proof (cases r1)
      case None
      with True p "1.prems" have "chapter_loop env chapters (i + 1) w1 = (r, w')"
        by (simp add: chapter_loop.simps[of env chapters i w])
      with "1.IH"[OF True p[symmetric] None] f show ?thesis by simp
    next
      case (Some e)
      with True p "1.prems" have "w' = w1"
        by (simp add: chapter_loop.simps[of env chapters i w])
      with f show ?thesis by simp
    qed
  qed
qed

lemma failed_request_keeps_files:
  assumes "fst (upload_handler env w) \<noteq> Response 200 ''Book processed successfully!''"
  shows "files (snd (upload_handler env w)) = files w"
proof (cases "req_file env")
  case None
  then show ?thesis by (simp add: upload_handler_def catch_block_def)
next
  case (Some filePath)
  show ?thesis
  proof (cases "pdf_text env filePath")
    case None
    with Some show ?thesis
      by (simp add: upload_handler_def extractTextFromPDF_def catch_block_def)
  next
    case t: (Some body)
    obtain r w1 where l: "chapter_loop env (segmentIntoChapters body) 0 w = (r, w1)"
      by (cases "chapter_loop env (segmentIntoChapters body) 0 w")
    then have f: "files w1 = files w" by (simp add: chapter_loop_files)
    show ?thesis
    proof (cases r)
      case e: (Some e)
      with Some t l f show ?thesis
        by (simp add: upload_handler_def extractTextFromPDF_def catch_block_def)
    next
      case None
      with Some t l f assms show ?thesis
        by (cases "unlink_ok env filePath")
          (simp_all add: upload_handler_def extractTextFromPDF_def catch_block_def unlink_def Let_def)
    qed
  qed
qed

text \<open>
  C3 fails on the program. For the book of two chapters, when the call of the
  model for the second chapter throws, the handler answers with the error
  response without any call of \<^verbatim>\<open>fs.unlink\<close>: the uploaded file is still on disk.
\<close>

theorem failed_upload_keeps_file:
  "book \<in> files world0 \<and>
   upload_handler env_network world0 =
     (Response 500 ''An error occurred while processing the book.'',
      \<lparr>table = [example_row 1], sent = [js '' a '', js '' b''], files = {book},
       unlink_calls = [],
       console = [Processing 1, Stored 1, Processing 2, Caught ApiError]\<rparr>) \<and>
   book \<in> files (snd (upload_handler env_network world0)) \<and>
   unlink_calls (snd (upload_handler env_network world0)) = []"
  by (simp add: run_eval seg_eval)

section \<open>The start of the server: claims\<close>

lemmas startup_eval = startup_def initial_def app_listen_def listen_callback_def
  checkSupabaseConnection_def serving_def Let_def

text \<open>
  C9, as stated, fails. When the read answers with an error, the process exits
  with code 1, but the state in which the callback starts is a serving state: the
  port is bound before the read is made.
\<close>

theorem startup_counterexample:
  "startup SelectError =
     [initial, app_listen initial, listen_callback SelectError (app_listen initial)] \<and>
   serving (app_listen initial) \<and>
   exit_code (listen_callback SelectError (app_listen initial)) = Some 1"
  by (simp add: startup_eval)

text \<open>
  C9, amended. When the read of the start fails, with an error or an exception,
  the check returns false and the process exits with code 1 at the end of the
  callback, after which it does not serve; the listener is bound before the
  read, so that the process is in a serving state when the callback starts.
\<close>

theorem startup_check_fails:
  assumes "sel \<noteq> SelectOk"
  shows "fst (checkSupabaseConnection sel p) = False \<and>
         exit_code (last (startup sel)) = Some 1 \<and>
         \<not> serving (last (startup sel)) \<and>
         serving (startup sel ! 1) \<and>
         printed (last (startup sel)) =
           [ServerRunning, if sel = SelectError then ConnectionError else ErrorChecking,
            FailedExiting]"
  using assms by (cases sel) (simp_all add: startup_eval)

text \<open>C9 when the read throws.\<close>

theorem startup_check_fails_witness:
  "SelectThrows \<noteq> SelectOk \<and>
   exit_code (last (startup SelectThrows)) = Some 1 \<and>
   serving (startup SelectThrows ! 1) \<and>
   last (startup SelectThrows) =
     \<lparr>listening = False, exit_code = Some 1,
      printed = [ServerRunning, ErrorChecking, FailedExiting]\<rparr>"
  using startup_check_fails [of SelectThrows initial]
  by (simp add: startup_eval)

end
